theory Spec2Isabelle
  imports Complex_Main "HOL-Library.Sublist"
begin

section \<open>Heartbeat detection service: model of \<open>heartbeat_api.py\<close>\<close>

text \<open>
  The model follows \<open>src/heartbeat_api.py\<close>. Python \<open>int\<close> is \<open>int\<close>, array indices and
  lengths are \<open>nat\<close>, a Python \<open>str\<close> is a \<open>string\<close>, a one-dimensional numpy array of
  samples is a \<open>real list\<close>. The signal stages are modelled in exact real arithmetic:
  there the theory speaks about the arithmetic the code writes down, not about the
  rounding error of IEEE doubles. The duration, the rate estimate and the rounded
  fields of the result record are modelled as the doubles the code computes, each
  operation rounded by \<open>fl\<close>. A raised exception is the \<open>Inl\<close> branch of a sum.
\<close>

datatype error = ValueError | ZeroDivisionError

type_synonym 'a result = "error + 'a"

subsection \<open>Session identifiers (lines 24--27)\<close>

definition hex_alphabet :: string where
  "hex_alphabet = ''0123456789abcdef''"

text \<open>
  \<^verbatim>\<open>if not sid or not all(c in "0123456789abcdef" for c in sid): raise ValueError(...)\<close>
  \<^verbatim>\<open>return sid\<close>
\<close>

definition safe_session_id :: "string \<Rightarrow> string result" where
  "safe_session_id sid =
     (if sid = [] \<or> \<not> list_all (\<lambda>c. c \<in> set hex_alphabet) sid
      then Inl ValueError
      else Inr sid)"

subsection \<open>Python and numpy primitives used by the pipeline\<close>

text \<open>\<^verbatim>\<open>np.max(a)\<close>: the largest element; \<open>ValueError\<close> on an empty array.\<close>

fun np_max :: "real list \<Rightarrow> real result" where
  "np_max [] = Inl ValueError"
| "np_max (x # xs) = Inr (fold max xs x)"

text \<open>\<^verbatim>\<open>int(x)\<close> on a float: truncation toward zero.\<close>

definition py_int :: "real \<Rightarrow> int" where
  "py_int x = (if 0 \<le> x then \<lfloor>x\<rfloor> else \<lceil>x\<rceil>)"

text \<open>The nearest integer, a tie going to the even neighbour.\<close>

definition round_half_even :: "real \<Rightarrow> int" where
  "round_half_even x =
     (let f = \<lfloor>x\<rfloor>; d = x - of_int f
      in if d < 1 / 2 then f else if 1 / 2 < d then f + 1
         else if even f then f else f + 1)"

text \<open>
  The double nearest to a real number (IEEE 754 binary64, round to nearest, ties to
  even), for the normal range; overflow and subnormal numbers are not modelled. The
  magnitude is scaled by powers of two into \<open>[2^52, 2^53)\<close>, rounded to an integer
  there, and scaled back. A Python \<open>float\<close> operation on doubles is the exact operation
  followed by \<open>fl\<close>.
\<close>

function fl_scale :: "real \<Rightarrow> int \<Rightarrow> real \<times> int" where
  "fl_scale m e =
     (if 2 ^ 53 \<le> m then fl_scale (m / 2) (e + 1)
      else if 0 < m \<and> m < 2 ^ 52 then fl_scale (m * 2) (e - 1)
      else (m, e))"
  by pat_completeness auto
termination
proof (relation "measure (\<lambda>(m, e). if 2 ^ 53 \<le> m then nat \<lceil>m\<rceil>
                                   else if 0 < m then nat \<lceil>2 ^ 53 / m\<rceil> else 0)")
  show "wf (measure (\<lambda>(m :: real, e :: int). if 2 ^ 53 \<le> m then nat \<lceil>m\<rceil>
                                   else if 0 < m then nat \<lceil>2 ^ 53 / m\<rceil> else 0))"
    by simp
next
  fix m :: real and e :: int
  assume big: "2 ^ 53 \<le> m"
  have "nat \<lceil>m / 2\<rceil> < nat \<lceil>m\<rceil>"
  proof -
    have "m / 2 \<le> m - 1" using big by simp
    then have "\<lceil>m / 2\<rceil> \<le> \<lceil>m - 1\<rceil>" by (rule ceiling_mono)
    then have "\<lceil>m / 2\<rceil> < \<lceil>m\<rceil>" by simp
    moreover have "0 < \<lceil>m\<rceil>" using big by (simp add: ceiling_less_iff)
    ultimately show ?thesis by linarith
  qed
  moreover have "nat \<lceil>2 ^ 53 / (m / 2)\<rceil> < nat \<lceil>m\<rceil>" if "m / 2 < 2 ^ 53"
  proof -
    have "2 ^ 53 / (m / 2) \<le> 2" using big by (simp add: field_simps)
    then have "\<lceil>2 ^ 53 / (m / 2)\<rceil> \<le> 2" by (simp add: ceiling_le_iff)
    moreover have "2 < \<lceil>m\<rceil>" using big by (simp add: less_ceiling_iff)
    ultimately show ?thesis by linarith
  qed
  ultimately
  show "((m / 2, e + 1), (m, e)) \<in> measure (\<lambda>(m, e). if 2 ^ 53 \<le> m then nat \<lceil>m\<rceil>
                                   else if 0 < m then nat \<lceil>2 ^ 53 / m\<rceil> else 0)"
    using big by auto
next
  fix m :: real and e :: int
  assume nb: "\<not> 2 ^ 53 \<le> m" and sm: "0 < m \<and> m < 2 ^ 52"
  let ?t = "2 ^ 53 / m"
  have t: "2 \<le> ?t" using sm by (simp add: field_simps)
  have "2 ^ 53 / (m * 2) = ?t / 2" by simp
  moreover have "u / 2 \<le> u - 1" if "2 \<le> u" for u :: real using that by linarith
  from this [OF t] have "?t / 2 \<le> ?t - 1" .
  ultimately have "\<lceil>2 ^ 53 / (m * 2)\<rceil> \<le> \<lceil>?t - 1\<rceil>" by (metis ceiling_mono)
  then have "\<lceil>2 ^ 53 / (m * 2)\<rceil> < \<lceil>?t\<rceil>" by simp
  moreover have "0 < \<lceil>?t\<rceil>"
  proof -
    have "(0::real) < ?t" using t by linarith
    then show ?thesis by (simp only: zero_less_ceiling)
  qed
  ultimately have "nat \<lceil>2 ^ 53 / (m * 2)\<rceil> < nat \<lceil>?t\<rceil>" by linarith
  moreover have "\<not> 2 ^ 53 \<le> m * 2" using sm by simp
  ultimately
  show "((m * 2, e - 1), (m, e)) \<in> measure (\<lambda>(m, e). if 2 ^ 53 \<le> m then nat \<lceil>m\<rceil>
                                   else if 0 < m then nat \<lceil>2 ^ 53 / m\<rceil> else 0)"
    using sm nb by auto
qed

declare fl_scale.simps [simp del]

definition fl :: "real \<Rightarrow> real" where
  "fl x =
     (if x = 0 then 0
      else let (m, e) = fl_scale \<bar>x\<bar> 0
           in sgn x * of_int (round_half_even m) * 2 powi e)"

text \<open>
  \<^verbatim>\<open>round(x, nd)\<close> on a float \<open>x\<close>: the exact value of the double is rounded to the
  nearest multiple of \<open>10^-nd\<close>, a tie going to the even multiple, and the result is
  the double nearest to that decimal.
\<close>

definition py_round :: "real \<Rightarrow> nat \<Rightarrow> real" where
  "py_round x nd = fl (of_int (round_half_even (x * 10 ^ nd)) / 10 ^ nd)"

text \<open>
  \<^verbatim>\<open>np.convolve(a, v, mode="same")\<close>. numpy swaps the arguments when \<open>v\<close> is the longer
  one, rejects an empty argument, and returns the centred slice of the full discrete
  convolution \<open>(a * v)[m] = \<Sum>i. a[i] v[m - i]\<close>: \<open>max (len a) (len v)\<close> values,
  starting at offset \<open>(min (len a) (len v) - 1) div 2\<close>.
\<close>

definition conv_full :: "real list \<Rightarrow> real list \<Rightarrow> real list" where
  "conv_full a v =
     map (\<lambda>m. \<Sum>i\<leftarrow>[0..<length a]. if i \<le> m \<and> m - i < length v then a ! i * v ! (m - i) else 0)
       [0..<length a + length v - 1]"

definition np_convolve_same :: "real list \<Rightarrow> real list \<Rightarrow> real list result" where
  "np_convolve_same a v =
     (let (a1, v1) = (if length a < length v then (v, a) else (a, v))
      in if a1 = [] \<or> v1 = [] then Inl ValueError
         else Inr (take (length a1) (drop ((length v1 - 1) div 2) (conv_full a1 v1))))"

subsection \<open>Normalizer (lines 47--51)\<close>

text \<open>
  \<^verbatim>\<open>if np.max(np.abs(y)) == 0: y = y + 1e-12\<close>
  \<^verbatim>\<open>y = y / np.max(np.abs(y))\<close>
\<close>

definition normalize :: "real list \<Rightarrow> real list result" where
  "normalize y =
     (case np_max (map abs y) of
        Inl e \<Rightarrow> Inl e
      | Inr m \<Rightarrow>
          let y1 = (if m = 0 then map (\<lambda>s. s + 1 / 10 ^ 12) y else y)
          in (case np_max (map abs y1) of
                Inl e \<Rightarrow> Inl e
              | Inr m1 \<Rightarrow> Inr (map (\<lambda>s. s / m1) y1)))"

text \<open>
  \<^verbatim>\<open>duration = len(y) / Fs\<close>: Python's true division of two integers, the double nearest
  to the quotient.
\<close>

definition duration_of :: "nat \<Rightarrow> int \<Rightarrow> real result" where
  "duration_of n Fs =
     (if Fs = 0 then Inl ZeroDivisionError else Inr (fl (real n / real_of_int Fs)))"

subsection \<open>Smoothing window and moving average (lines 72--75)\<close>

text \<open>
  \<^verbatim>\<open>window_len = int(Fs * 0.05)\<close>
  \<^verbatim>\<open>if window_len < 1: window_len = 1\<close>
\<close>

definition window_len :: "int \<Rightarrow> int" where
  "window_len Fs = (let w = py_int (real_of_int Fs * (5 / 100)) in if w < 1 then 1 else w)"

text \<open>\<^verbatim>\<open>env_smooth = np.convolve(env, np.ones(window_len) / window_len, mode="same")\<close>\<close>

definition smooth_envelope :: "int \<Rightarrow> real list \<Rightarrow> real list result" where
  "smooth_envelope Fs env =
     (let w = window_len Fs
      in np_convolve_same env (replicate (nat w) (1 / real_of_int w)))"

subsection \<open>Band-pass filtering (lines 58--64)\<close>

text \<open>
  \<^verbatim>\<open>scipy.signal.lfilter(b, a, x)\<close> on a one-dimensional signal, with zero initial state:
  \<open>a[0] y[n] = b[0] x[n] + ... + b[M] x[n-M] - a[1] y[n-1] - ... - a[N] y[n-N]\<close>.
  The run keeps the inputs and the outputs seen so far, newest first. scipy rejects
  \<open>a[0] = 0\<close>.
\<close>

fun dot :: "real list \<Rightarrow> real list \<Rightarrow> real" where
  "dot (u # us) (v # vs) = u * v + dot us vs"
| "dot _ _ = 0"

fun lfilter_run :: "real list \<Rightarrow> real list \<Rightarrow> real list \<Rightarrow> real list \<Rightarrow> real list \<Rightarrow> real list" where
  "lfilter_run b a xh yh [] = []"
| "lfilter_run b a xh yh (x # xs) =
     (let xh' = x # xh;
          yn = (dot b xh' - dot (tl a) yh) / hd a
      in yn # lfilter_run b a xh' (yn # yh) xs)"

definition lfilter :: "real list \<Rightarrow> real list \<Rightarrow> real list \<Rightarrow> real list result" where
  "lfilter b a x = (if a = [] \<or> hd a = 0 then Inl ValueError else Inr (lfilter_run b a [] [] x))"

text \<open>
  The scipy and numpy routines whose results the pipeline only passes on are
  parameters of the model:
  \<^item> \<open>butter Fs\<close> is \<^verbatim>\<open>butter(2, [20, 200], btype="band", fs=Fs)\<close>, the pair \<open>(b, a)\<close>, or the
    error it raises;
  \<^item> \<open>filtfilt b a y\<close> is \<^verbatim>\<open>filtfilt(b, a, y)\<close>, or the error it raises;
  \<^item> \<open>hilbert_abs y\<close> is \<^verbatim>\<open>np.abs(hilbert(y))\<close>, the magnitude of the analytic signal;
  \<^item> \<open>argsort v\<close> is \<^verbatim>\<open>np.argsort(v)\<close>, used inside \<^verbatim>\<open>find_peaks\<close>.
\<close>

record dsp =
  butter :: "int \<Rightarrow> (real list \<times> real list) result"
  filtfilt :: "real list \<Rightarrow> real list \<Rightarrow> real list \<Rightarrow> real list result"
  hilbert_abs :: "real list \<Rightarrow> real list"
  argsort :: "real list \<Rightarrow> nat list"

text \<open>
  \<^verbatim>\<open>b, a = butter(2, [20, 200], btype="band", fs=Fs)\<close>
  \<^verbatim>\<open>try: y_filt = filtfilt(b, a, y)\<close>
  \<^verbatim>\<open>except Exception: y_filt = lfilter(b, a, y)\<close>
\<close>

definition bandpass :: "'x dsp_scheme \<Rightarrow> int \<Rightarrow> real list \<Rightarrow> real list result" where
  "bandpass L Fs y =
     (case butter L Fs of
        Inl e \<Rightarrow> Inl e
      | Inr (b, a) \<Rightarrow>
          (case filtfilt L b a y of
             Inr y_filt \<Rightarrow> Inr y_filt
           | Inl e \<Rightarrow> lfilter b a y))"

subsection \<open>Peak detection (lines 78--79)\<close>

text \<open>
  \<^verbatim>\<open>scipy.signal.find_peaks(x, height=h, distance=d)\<close>. First the local maxima: a sample
  larger than its left neighbour, followed by a (possibly empty) plateau of equal
  samples and then a smaller sample; the peak is the middle of the plateau, rounded
  down. The first and the last sample are never peaks.
\<close>

function plateau_end :: "real list \<Rightarrow> nat \<Rightarrow> nat \<Rightarrow> nat" where
  "plateau_end x i i_ahead =
     (if i_ahead < length x - 1 \<and> x ! i_ahead = x ! i
      then plateau_end x i (Suc i_ahead) else i_ahead)"
  by pat_completeness auto
termination
  by (relation "measure (\<lambda>(x, i, i_ahead). length x - 1 - i_ahead)") auto

declare plateau_end.simps [simp del]

function local_maxima_from :: "real list \<Rightarrow> nat \<Rightarrow> nat list" where
  "local_maxima_from x i =
     (if i < length x - 1 then
        (if x ! (i - 1) < x ! i then
           (let i_ahead = plateau_end x i (i + 1)
            in if x ! i_ahead < x ! i
               then ((i + (i_ahead - 1)) div 2) # local_maxima_from x (i_ahead + 1)
               else local_maxima_from x (i + 1))
         else local_maxima_from x (i + 1))
      else [])"
  by pat_completeness auto
termination
proof (relation "measure (\<lambda>(x, i). length x - i)")
  show "wf (measure (\<lambda>(x :: real list, i). length x - i))" by simp
next
  fix x :: "real list" and i i_ahead :: nat
  assume lt: "i < length x - 1" and ia: "i_ahead = plateau_end x i (i + 1)"
  have ge: "k \<le> plateau_end x i k" for k
    by (induction x i k rule: plateau_end.induct) (subst plateau_end.simps, auto)
  from ge [of "i + 1"] ia lt
  show "((x, i_ahead + 1), (x, i)) \<in> measure (\<lambda>(x, i). length x - i)" by simp
qed auto

declare local_maxima_from.simps [simp del]

definition local_maxima_1d :: "real list \<Rightarrow> nat list" where
  "local_maxima_1d x = local_maxima_from x 1"

text \<open>
  Then the distance condition, \<^verbatim>\<open>_select_by_peak_distance(peaks, priority, distance)\<close>:
  the peaks are visited from the highest priority down; a peak that is still kept
  clears the keep flag of every neighbour to its left and to its right that is closer
  than \<open>distance\<close> samples. \<open>suppress_left\<close> is the loop \<^verbatim>\<open>k = j - 1; while 0 <= k and ...\<close>,
  its counter being \<open>k + 1\<close>; \<open>suppress_right\<close> is \<^verbatim>\<open>k = j + 1; while k < size and ...\<close>.
\<close>

fun suppress_left :: "nat list \<Rightarrow> nat \<Rightarrow> nat \<Rightarrow> nat \<Rightarrow> bool list \<Rightarrow> bool list" where
  "suppress_left peaks d j 0 keep = keep"
| "suppress_left peaks d j (Suc k) keep =
     (if int (peaks ! j) - int (peaks ! k) < int d
      then suppress_left peaks d j k (keep[k := False]) else keep)"

function suppress_right :: "nat list \<Rightarrow> nat \<Rightarrow> nat \<Rightarrow> nat \<Rightarrow> bool list \<Rightarrow> bool list" where
  "suppress_right peaks d j k keep =
     (if k < length peaks \<and> int (peaks ! k) - int (peaks ! j) < int d
      then suppress_right peaks d j (Suc k) (keep[k := False]) else keep)"
  by pat_completeness auto
termination
  by (relation "measure (\<lambda>(peaks, d, j, k, keep). length peaks - k)") auto

declare suppress_right.simps [simp del]

definition suppress_around :: "nat list \<Rightarrow> nat \<Rightarrow> bool list \<Rightarrow> nat \<Rightarrow> bool list" where
  "suppress_around peaks d keep j =
     (if \<not> keep ! j then keep
      else suppress_right peaks d j (Suc j) (suppress_left peaks d j j keep))"

definition select_by_peak_distance ::
  "(real list \<Rightarrow> nat list) \<Rightarrow> nat list \<Rightarrow> real list \<Rightarrow> nat \<Rightarrow> bool list" where
  "select_by_peak_distance asort peaks priority d =
     foldl (suppress_around peaks d) (replicate (length peaks) True) (rev (asort priority))"

definition find_peaks :: "(real list \<Rightarrow> nat list) \<Rightarrow> real list \<Rightarrow> real \<Rightarrow> int \<Rightarrow> nat list result" where
  "find_peaks asort x height distance =
     (if distance < 1 then Inl ValueError
      else let peaks = local_maxima_1d x;
               peaks = filter (\<lambda>p. height \<le> x ! p) peaks;
               keep = select_by_peak_distance asort peaks (map (\<lambda>p. x ! p) peaks) (nat distance)
           in Inr (map fst (filter snd (zip peaks keep))))"

text \<open>
  \<^verbatim>\<open>threshold = 0.3 * np.max(env_smooth)\<close>
  \<^verbatim>\<open>peaks, _ = find_peaks(env_smooth, height=threshold, distance=int(0.2 * Fs))\<close>
\<close>

definition peak_distance :: "int \<Rightarrow> int" where
  "peak_distance Fs = py_int ((2 / 10) * real_of_int Fs)"

definition detect_peaks ::
  "(real list \<Rightarrow> nat list) \<Rightarrow> int \<Rightarrow> real list \<Rightarrow> (real \<times> nat list) result" where
  "detect_peaks asort Fs env_smooth =
     (case np_max env_smooth of
        Inl e \<Rightarrow> Inl e
      | Inr mx \<Rightarrow>
          let threshold = (3 / 10) * mx
          in (case find_peaks asort env_smooth threshold (peak_distance Fs) of
                Inl e \<Rightarrow> Inl e
              | Inr peaks \<Rightarrow> Inr (threshold, peaks)))"

text \<open>
  \<^verbatim>\<open>np.argsort\<close> with a stable sort. numpy's default sort may order equal priorities
  differently; the properties below are proved for any \<open>argsort\<close> that returns a
  permutation of the positions, and this one is used to run examples.
\<close>

definition argsort_stable :: "real list \<Rightarrow> nat list" where
  "argsort_stable v = map snd (sort_key fst (zip v [0..<length v]))"

subsection \<open>Beat grouping (lines 82--85)\<close>

text \<open>
  \<^verbatim>\<open>grouped = []\<close>
  \<^verbatim>\<open>for p in peaks:\<close>
  \<^verbatim>\<open>    if not grouped or (p - grouped[-1]) > 0.6 * Fs: grouped.append(int(p))\<close>
\<close>

definition group_step :: "int \<Rightarrow> int list \<Rightarrow> int \<Rightarrow> int list" where
  "group_step Fs grouped p =
     (if grouped = [] \<or> (6 / 10) * real_of_int Fs < real_of_int (p - last grouped)
      then grouped @ [p] else grouped)"

definition group_beats :: "int \<Rightarrow> int list \<Rightarrow> int list" where
  "group_beats Fs peaks = foldl (group_step Fs) [] peaks"

text \<open>The comparison of the loop, between a kept beat \<open>a\<close> and a later peak \<open>b\<close>.\<close>

definition beat_gap :: "int \<Rightarrow> int \<Rightarrow> int \<Rightarrow> bool" where
  "beat_gap Fs a b \<longleftrightarrow> (6 / 10) * real_of_int Fs < real_of_int (b - a)"

subsection \<open>Rate estimate (line 88)\<close>

text \<open>
  \<^verbatim>\<open>bpm = len(beats) / (duration / 60) if duration > 0 else 0.0\<close>: two double divisions.
\<close>

definition bpm_of :: "nat \<Rightarrow> real \<Rightarrow> real" where
  "bpm_of nbeats duration =
     (if 0 < duration then fl (real nbeats / fl (duration / 60)) else 0)"

subsection \<open>The pipeline (lines 44--135)\<close>

text \<open>
  The values \<^verbatim>\<open>process_heartbeat\<close> computes on its way, from the mono sample sequence \<open>y0\<close>
  and the sample rate \<open>Fs\<close> that \<^verbatim>\<open>sf.read\<close> returned. Writing the audio files has no
  effect on the values and is left out.
\<close>

record signals =
  sig_y :: "real list"
  sig_duration :: real
  sig_y_filt :: "real list"
  sig_env_smooth :: "real list"
  sig_threshold :: real
  sig_peaks :: "nat list"
  sig_beats :: "int list"
  sig_bpm :: real

definition analyse :: "'x dsp_scheme \<Rightarrow> real list \<Rightarrow> int \<Rightarrow> signals result" where
  "analyse L y0 Fs =
     (case normalize y0 of
        Inl e \<Rightarrow> Inl e
      | Inr y \<Rightarrow>
     (case duration_of (length y) Fs of
        Inl e \<Rightarrow> Inl e
      | Inr duration \<Rightarrow>
     (case bandpass L Fs y of
        Inl e \<Rightarrow> Inl e
      | Inr y_filt \<Rightarrow>
     (case smooth_envelope Fs (hilbert_abs L y_filt) of
        Inl e \<Rightarrow> Inl e
      | Inr env_smooth \<Rightarrow>
     (case detect_peaks (argsort L) Fs env_smooth of
        Inl e \<Rightarrow> Inl e
      | Inr (threshold, peaks) \<Rightarrow>
          let grouped = group_beats Fs (map int peaks)
          in Inr \<lparr>sig_y = y, sig_duration = duration, sig_y_filt = y_filt,
                  sig_env_smooth = env_smooth, sig_threshold = threshold,
                  sig_peaks = peaks, sig_beats = grouped,
                  sig_bpm = bpm_of (length grouped) duration\<rparr>)))))"

text \<open>
  The three \<^verbatim>\<open>plt.plot(t, ...)\<close> calls of lines 96--106 draw the normalized, the filtered
  and the smoothed sequence against \<^verbatim>\<open>t = np.arange(len(y)) / Fs\<close>; matplotlib raises
  \<open>ValueError\<close> when the two arguments differ in length.
\<close>

definition plot_ok :: "signals \<Rightarrow> bool" where
  "plot_ok s \<longleftrightarrow>
     length (sig_y_filt s) = length (sig_y s) \<and> length (sig_env_smooth s) = length (sig_y s)"

text \<open>The \<^verbatim>\<open>meta\<close> dictionary of lines 116--128 (the constant \<^verbatim>\<open>files\<close> entry left out).\<close>

record meta =
  meta_Fs :: int
  meta_duration_sec :: real
  meta_threshold :: real
  meta_raw_peaks :: nat
  meta_beats_grouped :: nat
  meta_bpm :: real

definition assemble_meta :: "int \<Rightarrow> signals \<Rightarrow> meta" where
  "assemble_meta Fs s =
     \<lparr>meta_Fs = Fs,
      meta_duration_sec = py_round (sig_duration s) 2,
      meta_threshold = sig_threshold s,
      meta_raw_peaks = length (sig_peaks s),
      meta_beats_grouped = length (sig_beats s),
      meta_bpm = py_round (sig_bpm s) 1\<rparr>"

definition process_heartbeat :: "'x dsp_scheme \<Rightarrow> real list \<Rightarrow> int \<Rightarrow> meta result" where
  "process_heartbeat L y0 Fs =
     (case analyse L y0 Fs of
        Inl e \<Rightarrow> Inl e
      | Inr s \<Rightarrow> if plot_ok s then Inr (assemble_meta Fs s) else Inl ValueError)"

text \<open>
  A stand-in for the library, used to run the model on small inputs: the given filter
  coefficients \<open>(b, a)\<close> for a sample rate above 400 Hz (below, the band edge 200 Hz is
  not under \<open>Fs / 2\<close> and \<^verbatim>\<open>butter\<close> raises), a forward-backward pass without edge padding
  that fails on a signal of at most \<open>3 * max (len a) (len b)\<close> samples as \<^verbatim>\<open>filtfilt\<close> does,
  the absolute value of the samples as their envelope, and the stable \<open>argsort\<close>.
\<close>

definition stub_dsp :: "real list \<Rightarrow> real list \<Rightarrow> dsp" where
  "stub_dsp b0 a0 =
     \<lparr>butter = (\<lambda>Fs. if 400 < Fs then Inr (b0, a0) else Inl ValueError),
      filtfilt = (\<lambda>b a y. if length y \<le> 3 * max (length a) (length b) then Inl ValueError
                          else Inr (rev (lfilter_run b a [] [] (rev (lfilter_run b a [] [] y))))),
      hilbert_abs = map abs,
      argsort = argsort_stable\<rparr>"

section \<open>Properties\<close>

subsection \<open>Session identifiers\<close>

text \<open>
  Claim C10. \<open>safe_session_id sid\<close> raises \<open>ValueError\<close> exactly when \<open>sid\<close> is empty or
  has a character outside \<open>0-9a-f\<close>; otherwise it returns \<open>sid\<close> unchanged. An accepted
  identifier therefore has no slash, backslash, dot, NUL or any other character that
  is not a lowercase hexadecimal digit.
\<close>

theorem safe_session_id_spec:
  "(safe_session_id sid = Inl ValueError \<longleftrightarrow>
      sid = [] \<or> (\<exists>c \<in> set sid. c \<notin> set ''0123456789abcdef''))
   \<and> (safe_session_id sid \<noteq> Inl ValueError \<longrightarrow> safe_session_id sid = Inr sid)
   \<and> (\<forall>r. safe_session_id sid = Inr r \<longrightarrow>
          r = sid \<and> r \<noteq> [] \<and> set r \<subseteq> set ''0123456789abcdef''
          \<and> CHR ''/'' \<notin> set r \<and> CHR 0x5C \<notin> set r \<and> CHR ''.'' \<notin> set r
          \<and> CHR 0x00 \<notin> set r \<and> CHR ''~'' \<notin> set r \<and> CHR '':'' \<notin> set r)"
proof -
  have ex: "(\<not> list_all (\<lambda>c. c \<in> set hex_alphabet) sid)
            \<longleftrightarrow> (\<exists>c \<in> set sid. c \<notin> set ''0123456789abcdef'')"
    unfolding hex_alphabet_def list_all_iff by blast
  have out: "c \<notin> set sid"
    if "set sid \<subseteq> set ''0123456789abcdef''" and "c \<notin> set ''0123456789abcdef''" for c
    using that by blast
  have c1: "CHR ''/'' \<notin> set ''0123456789abcdef''" by simp
  have c2: "CHR 0x5C \<notin> set ''0123456789abcdef''" by simp
  have c3: "CHR ''.'' \<notin> set ''0123456789abcdef''" by simp
  have c4: "CHR 0x00 \<notin> set ''0123456789abcdef''" by simp
  have c5: "CHR ''~'' \<notin> set ''0123456789abcdef''" by simp
  have c6: "CHR '':'' \<notin> set ''0123456789abcdef''" by simp
  have first: "safe_session_id sid = Inl ValueError \<longleftrightarrow>
      sid = [] \<or> (\<exists>c \<in> set sid. c \<notin> set ''0123456789abcdef'')"
    unfolding safe_session_id_def ex by simp
  have second: "safe_session_id sid \<noteq> Inl ValueError \<longrightarrow> safe_session_id sid = Inr sid"
    unfolding safe_session_id_def by simp
  have third: "r = sid \<and> r \<noteq> [] \<and> set r \<subseteq> set ''0123456789abcdef''
          \<and> CHR ''/'' \<notin> set r \<and> CHR 0x5C \<notin> set r \<and> CHR ''.'' \<notin> set r
          \<and> CHR 0x00 \<notin> set r \<and> CHR ''~'' \<notin> set r \<and> CHR '':'' \<notin> set r"
    if h: "safe_session_id sid = Inr r" for r
  proof -
    from h have ne: "sid \<noteq> []" and ok: "list_all (\<lambda>c. c \<in> set hex_alphabet) sid" and r: "r = sid"
      unfolding safe_session_id_def by (simp_all split: if_splits)
    from ok have sub: "set sid \<subseteq> set ''0123456789abcdef''"
      unfolding hex_alphabet_def list_all_iff by blast
    show ?thesis
      using r ne sub out [OF sub c1] out [OF sub c2] out [OF sub c3]
        out [OF sub c4] out [OF sub c5] out [OF sub c6] by blast
  qed
  from first second third show ?thesis by blast
qed

theorem safe_session_id_spec_witness:
  "safe_session_id ''3fa9c01b'' = Inr ''3fa9c01b''
   \<and> safe_session_id ''../etc'' = Inl ValueError
   \<and> safe_session_id '''' = Inl ValueError
   \<and> CHR ''/'' \<notin> set ''3fa9c01b''"
proof -
  have a: "safe_session_id ''3fa9c01b'' \<noteq> Inl ValueError"
    using safe_session_id_spec [of "''3fa9c01b''"] by simp
  have b: "safe_session_id ''../etc'' = Inl ValueError"
    using safe_session_id_spec [of "''../etc''"] by simp
  have c: "safe_session_id '''' = Inl ValueError"
    using safe_session_id_spec [of "''''"] by simp
  from a have d: "safe_session_id ''3fa9c01b'' = Inr ''3fa9c01b''"
    using safe_session_id_spec [of "''3fa9c01b''"] by blast
  from d have e: "CHR ''/'' \<notin> set ''3fa9c01b''"
    using safe_session_id_spec [of "''3fa9c01b''"] by blast
  from b c d e show ?thesis by blast
qed

subsection \<open>Normalizer\<close>

lemma fold_max_Max: "fold max xs (x::real) = Max (set (x # xs))"
  by (rule Max.set_eq_fold [symmetric])

lemma np_max_Inr_iff: "np_max xs = Inr m \<longleftrightarrow> xs \<noteq> [] \<and> m = Max (set xs)"
proof (cases xs)
  case Nil
  then show ?thesis by simp
next
  case (Cons a list)
  then show ?thesis using fold_max_Max [of list a] by auto
qed

lemma np_max_abs_scale:
  assumes "np_max (map abs y) = Inr m" and "0 < c"
  shows "np_max (map abs (map (\<lambda>s. s / c) y)) = Inr (m / c)"
proof -
  from assms(1) have ne: "y \<noteq> []" and m: "m = Max (set (map abs y))"
    by (auto simp: np_max_Inr_iff)
  have mono: "mono (\<lambda>a::real. a / c)"
    using assms(2) by (simp add: mono_def divide_right_mono)
  have "Max ((\<lambda>a. a / c) ` set (map abs y)) = Max (set (map abs y)) / c"
    using mono_Max_commute [OF mono, of "set (map abs y)"] ne by simp
  moreover have "(\<lambda>a. a / c) ` set (map abs y) = set (map abs (map (\<lambda>s. s / c) y))"
    using assms(2) by (auto simp: image_iff abs_divide)
  ultimately show ?thesis using ne m by (simp add: np_max_Inr_iff del: set_map)
qed

lemma np_max_abs_nonneg: "np_max (map abs y) = Inr m \<Longrightarrow> 0 \<le> m"
proof -
  assume h: "np_max (map abs y) = Inr m"
  then have ne: "y \<noteq> []" and m: "m = Max (set (map abs y))" by (auto simp: np_max_Inr_iff)
  have "\<bar>hd y\<bar> \<in> set (map abs y)" using ne by (cases y) simp_all
  then have "\<bar>hd y\<bar> \<le> m" unfolding m by (intro Max_ge) simp_all
  then show ?thesis by linarith
qed

text \<open>
  Claim C2. When the peak absolute amplitude \<open>m\<close> of the input exists and is not zero,
  the normalizer succeeds, its output is the input with every sample divided by \<open>m\<close>,
  and the peak absolute amplitude of that output is exactly 1.
\<close>

theorem normalize_peak_one:
  assumes "np_max (map abs y) = Inr m" and "m \<noteq> 0"
  shows "normalize y = Inr (map (\<lambda>s. s / m) y)
         \<and> np_max (map abs (map (\<lambda>s. s / m) y)) = Inr 1"
proof -
  have pos: "0 < m" using np_max_abs_nonneg [OF assms(1)] assms(2) by linarith
  have "normalize y = Inr (map (\<lambda>s. s / m) y)"
    using assms by (simp add: normalize_def)
  moreover have "np_max (map abs (map (\<lambda>s. s / m) y)) = Inr 1"
    using np_max_abs_scale [OF assms(1) pos] assms(2) by simp
  ultimately show ?thesis by blast
qed

theorem normalize_peak_one_witness:
  "np_max (map abs [1, -4, 2]) = Inr 4 \<and> normalize [1, -4, 2] = Inr [1 / 4, -1, 1 / 2]
   \<and> np_max (map abs [1 / 4, -1, 1 / 2]) = Inr 1"
proof -
  have h: "np_max (map abs [1, -4, 2]) = Inr 4" by simp
  have n: "(4::real) \<noteq> 0" by simp
  from normalize_peak_one [OF h n] h show ?thesis by simp
qed

text \<open>
  Claim C3, as amended. For a non-empty all-zero input the normalizer raises nothing
  and its output is finite, but it is not near zero: the constant \<open>1e-12\<close> is added to
  the samples, the new peak is \<open>1e-12\<close>, and every sample of the output is exactly 1.
\<close>

theorem normalize_silent:
  assumes "y \<noteq> []" and "list_all (\<lambda>s. s = 0) y"
  shows "normalize y = Inr (replicate (length y) 1)"
proof -
  from assms(2) have y: "y = replicate (length y) 0"
    by (induction y) simp_all
  obtain n where n: "length y = Suc n" using assms(1) by (cases y) auto
  have fm: "fold max (replicate k a) a = a" for k and a :: real
    by (induction k) simp_all
  have m0: "np_max (map abs (replicate (Suc n) (0::real))) = Inr 0"
    using fm [of n 0] by simp
  have m1: "np_max (map abs (map (\<lambda>s. s + 1 / 10 ^ 12) (replicate (Suc n) (0::real))))
            = Inr (1 / 10 ^ 12)"
    using fm [of n "1 / 10 ^ 12"] by simp
  have "normalize (replicate (Suc n) 0) = Inr (replicate (Suc n) 1)"
    unfolding normalize_def m0 using m1 by (simp add: Let_def)
  with y n show ?thesis by simp
qed

theorem normalize_silent_witness:
  "normalize [0, 0, 0] = Inr [1, 1, 1]"
  using normalize_silent [of "[0, 0, 0]"] by simp

text \<open>
  The claim as written fails: on three zero samples no sample of the output is small,
  not even below full scale.
\<close>

theorem normalize_silent_counterexample:
  "\<not> (\<exists>ys. normalize [0, 0, 0] = Inr ys \<and> list_all (\<lambda>s. \<bar>s\<bar> < 1) ys)"
  by (simp add: normalize_def)

subsection \<open>Smoothing window\<close>

lemma py_int_nonneg: "0 \<le> Fs \<Longrightarrow> py_int (real_of_int Fs * (5 / 100)) = Fs div 20"
proof -
  assume h: "0 \<le> Fs"
  have "real_of_int Fs * (5 / 100) = real_of_int Fs / real_of_int 20" by simp
  then have "\<lfloor>real_of_int Fs * (5 / 100)\<rfloor> = Fs div 20"
    using floor_divide_of_int_eq [of Fs 20, where ?'a = real] by simp
  with h show ?thesis by (simp add: py_int_def)
qed

text \<open>
  Claim C5, as amended. The window has \<open>int(Fs * 0.05)\<close> samples, the product truncated
  toward zero and not rounded, with a minimum of 1; for a sample rate \<open>Fs \<ge> 0\<close> that is
  \<open>max 1 (Fs div 20)\<close>.
\<close>

theorem window_len_truncates:
  "window_len Fs = max 1 (py_int (real_of_int Fs * (5 / 100)))
   \<and> 1 \<le> window_len Fs
   \<and> (0 \<le> Fs \<longrightarrow> window_len Fs = max 1 (Fs div 20))"
  using py_int_nonneg [of Fs] by (auto simp: window_len_def Let_def)

theorem window_len_truncates_witness:
  "(0::int) \<le> 1015 \<and> window_len 1015 = 50 \<and> window_len 7 = 1"
  using window_len_truncates [of 1015] window_len_truncates [of 7] by simp

text \<open>
  The claim as written fails at \<open>Fs = 1015\<close>: \<open>1015 * 0.05 = 50.75\<close> rounds to 51 under
  either rounding rule, and the code uses 50.
\<close>

theorem window_len_round_counterexample:
  "window_len 1015 = 50 \<and> max 1 (round (real_of_int 1015 * (5 / 100))) = 51
   \<and> max 1 (round_half_even (real_of_int 1015 * (5 / 100))) = 51"
  by (simp add: window_len_def py_int_def round_def round_half_even_def Let_def)

subsection \<open>Beat grouping\<close>

lemma group_beats_snoc:
  "group_beats Fs (ps @ [q]) = group_step Fs (group_beats Fs ps) q"
  by (simp add: group_beats_def)

lemma foldl_group_step_append:
  "\<exists>zs. foldl (group_step Fs) acc ps = acc @ zs \<and> subseq zs ps"
proof (induction ps arbitrary: acc)
  case Nil
  then show ?case by simp
next
  case (Cons p ps)
  show ?case
  proof (cases "group_step Fs acc p = acc")
    case True
    from Cons.IH [of acc] obtain zs where "foldl (group_step Fs) acc ps = acc @ zs" "subseq zs ps"
      by blast
    with True show ?thesis by auto
  next
    case False
    then have st: "group_step Fs acc p = acc @ [p]"
      by (simp add: group_step_def split: if_splits)
    from Cons.IH [of "acc @ [p]"] obtain zs
      where "foldl (group_step Fs) (acc @ [p]) ps = (acc @ [p]) @ zs" "subseq zs ps"
      by blast
    with st have "foldl (group_step Fs) acc (p # ps) = acc @ (p # zs) \<and> subseq (p # zs) (p # ps)"
      by simp
    then show ?thesis by blast
  qed
qed

lemma group_beats_subseq: "subseq (group_beats Fs ps) ps"
  using foldl_group_step_append [of Fs "[]" ps] by (auto simp: group_beats_def)

lemma group_beats_first:
  "group_beats Fs (p # ps) \<noteq> [] \<and> hd (group_beats Fs (p # ps)) = p"
proof -
  have "group_step Fs [] p = [p]" by (simp add: group_step_def)
  moreover from foldl_group_step_append [of Fs "[p]" ps]
  obtain zs where "foldl (group_step Fs) [p] ps = [p] @ zs" by blast
  ultimately show ?thesis by (simp add: group_beats_def)
qed

lemma group_step_successively:
  "successively (beat_gap Fs) acc \<Longrightarrow> successively (beat_gap Fs) (group_step Fs acc p)"
  by (auto simp: group_step_def successively_append_iff beat_gap_def)

lemma foldl_group_step_successively:
  "successively (beat_gap Fs) acc \<Longrightarrow> successively (beat_gap Fs) (foldl (group_step Fs) acc ps)"
  by (induction ps arbitrary: acc) (simp_all add: group_step_successively)

lemma group_beats_successively: "successively (beat_gap Fs) (group_beats Fs ps)"
  unfolding group_beats_def by (rule foldl_group_step_successively) simp

lemma subseq_sorted_wrt: "subseq xs ys \<Longrightarrow> sorted_wrt P ys \<Longrightarrow> sorted_wrt P xs"
proof (induction rule: list_emb.induct)
  case (list_emb_Nil ys)
  then show ?case by simp
next
  case (list_emb_Cons xs ys y)
  then show ?case by simp
next
  case (list_emb_Cons2 x y xs ys)
  then have "sorted_wrt P xs" by simp
  moreover have "\<forall>z \<in> set xs. z \<in> set ys"
    using list_emb_Cons2.hyps(2) list_emb_set [of "(=)" xs ys] by blast
  ultimately show ?case using list_emb_Cons2 by auto
qed

text \<open>
  Claim C7. The grouping loop keeps the first peak; a later peak \<open>q\<close>, met after the
  peaks \<open>ps\<close>, is appended exactly when nothing is kept yet or \<open>q\<close> lies strictly more
  than \<open>0.6 * Fs\<close> samples after the last kept beat, and is dropped otherwise. Hence any
  two consecutive grouped beats are more than \<open>0.6 * Fs\<close> samples apart.
\<close>

theorem group_beats_spec:
  "group_beats Fs [] = []
   \<and> hd (group_beats Fs (p # ps)) = p \<and> group_beats Fs (p # ps) \<noteq> []
   \<and> group_beats Fs (ps @ [q]) =
       (if group_beats Fs ps = []
           \<or> (6 / 10) * real_of_int Fs < real_of_int (q - last (group_beats Fs ps))
        then group_beats Fs ps @ [q] else group_beats Fs ps)
   \<and> (\<forall>i. Suc i < length (group_beats Fs ps) \<longrightarrow>
          (6 / 10) * real_of_int Fs
            < real_of_int (group_beats Fs ps ! Suc i - group_beats Fs ps ! i))"
proof -
  have a: "group_beats Fs [] = []" by (simp add: group_beats_def)
  have c: "group_beats Fs (ps @ [q]) =
       (if group_beats Fs ps = []
           \<or> (6 / 10) * real_of_int Fs < real_of_int (q - last (group_beats Fs ps))
        then group_beats Fs ps @ [q] else group_beats Fs ps)"
    unfolding group_beats_snoc group_step_def ..
  have d: "\<forall>i. Suc i < length (group_beats Fs ps) \<longrightarrow>
          (6 / 10) * real_of_int Fs
            < real_of_int (group_beats Fs ps ! Suc i - group_beats Fs ps ! i)"
    using group_beats_successively [of Fs ps]
    unfolding successively_conv_nth beat_gap_def by blast
  from a group_beats_first [of Fs p ps] c d show ?thesis by blast
qed

theorem group_beats_spec_witness:
  "group_beats 1000 [100, 400, 1100] = [100, 1100]
   \<and> group_beats 1000 ([100, 400, 1100] @ [1700]) = [100, 1100]
   \<and> (6 / 10) * real_of_int 1000
       < real_of_int (group_beats 1000 [100, 400, 1100] ! Suc 0 - group_beats 1000 [100, 400, 1100] ! 0)"
proof -
  have g: "group_beats 1000 [100, 400, 1100] = [100, 1100]"
    by (simp add: group_beats_def group_step_def)
  have l: "Suc 0 < length (group_beats 1000 [100, 400, 1100])"
    unfolding g by simp
  from group_beats_spec [of 1000 100 "[100, 400, 1100]" 1700] have
    s: "group_beats 1000 ([100, 400, 1100] @ [1700]) =
       (if group_beats 1000 [100, 400, 1100] = []
           \<or> (6 / 10) * real_of_int 1000 < real_of_int (1700 - last (group_beats 1000 [100, 400, 1100]))
        then group_beats 1000 [100, 400, 1100] @ [1700] else group_beats 1000 [100, 400, 1100])"
    and d: "\<forall>i. Suc i < length (group_beats 1000 [100, 400, 1100]) \<longrightarrow>
          (6 / 10) * real_of_int 1000
            < real_of_int (group_beats 1000 [100, 400, 1100] ! Suc i - group_beats 1000 [100, 400, 1100] ! i)"
    by blast+
  from s have s': "group_beats 1000 ([100, 400, 1100] @ [1700]) = [100, 1100]"
    unfolding g by simp
  from d l have "(6 / 10) * real_of_int 1000
       < real_of_int (group_beats 1000 [100, 400, 1100] ! Suc 0 - group_beats 1000 [100, 400, 1100] ! 0)"
    by blast
  with g s' show ?thesis by blast
qed

text \<open>
  Claim C8. The grouping step only drops peaks: its output is a subsequence of the raw
  peak sequence, so it has at most as many elements, and it is strictly ascending
  whenever the raw peak sequence is.
\<close>

theorem group_beats_shrinks:
  "length (group_beats Fs ps) \<le> length ps
   \<and> subseq (group_beats Fs ps) ps
   \<and> (sorted_wrt (<) ps \<longrightarrow> sorted_wrt (<) (group_beats Fs ps))"
  using group_beats_subseq [of Fs ps] list_emb_length [of "(=)" "group_beats Fs ps" ps]
    subseq_sorted_wrt [of "group_beats Fs ps" ps "(<)"]
  by blast

theorem group_beats_shrinks_witness:
  "sorted_wrt (<) [100, 400, 1100 :: int]
   \<and> length (group_beats 1000 [100, 400, 1100]) \<le> 3
   \<and> sorted_wrt (<) (group_beats 1000 [100, 400, 1100])"
proof -
  have s: "sorted_wrt (<) [100, 400, 1100 :: int]" by simp
  from group_beats_shrinks [of 1000 "[100, 400, 1100]"] s show ?thesis by simp
qed

subsection \<open>Peak detection\<close>

lemma plateau_end_ge: "k \<le> plateau_end x i k"
  by (induction x i k rule: plateau_end.induct) (subst plateau_end.simps, auto)

lemma plateau_end_le: "k \<le> length x - 1 \<Longrightarrow> plateau_end x i k \<le> length x - 1"
  by (induction x i k rule: plateau_end.induct) (subst plateau_end.simps, auto)

lemma local_maxima_from_stop:
  "\<not> i < length x - 1 \<Longrightarrow> local_maxima_from x i = []"
  by (subst local_maxima_from.simps) simp

lemma local_maxima_from_flat:
  "i < length x - 1 \<Longrightarrow> \<not> x ! (i - 1) < x ! i \<Longrightarrow>
   local_maxima_from x i = local_maxima_from x (i + 1)"
  by (subst local_maxima_from.simps) simp

lemma local_maxima_from_rise:
  "i < length x - 1 \<Longrightarrow> x ! (i - 1) < x ! i \<Longrightarrow> \<not> x ! plateau_end x i (i + 1) < x ! i \<Longrightarrow>
   local_maxima_from x i = local_maxima_from x (i + 1)"
  by (subst local_maxima_from.simps) (simp add: Let_def)

lemma local_maxima_from_peak:
  "i < length x - 1 \<Longrightarrow> x ! (i - 1) < x ! i \<Longrightarrow> x ! plateau_end x i (i + 1) < x ! i \<Longrightarrow>
   local_maxima_from x i =
     ((i + (plateau_end x i (i + 1) - 1)) div 2) # local_maxima_from x (plateau_end x i (i + 1) + 1)"
  by (subst local_maxima_from.simps) (simp add: Let_def)

lemma local_maxima_from_bounds:
  "p \<in> set (local_maxima_from x i) \<Longrightarrow> i \<le> p \<and> p < length x - 1"
proof (induction x i rule: local_maxima_from.induct)
  case (1 x i)
  show ?case
  proof (cases "i < length x - 1")
    case False
    with "1.prems" show ?thesis by (simp add: local_maxima_from_stop)
  next
    case lt: True
    define ia where "ia = plateau_end x i (i + 1)"
    have ia_ge: "i + 1 \<le> ia" unfolding ia_def by (rule plateau_end_ge)
    have ia_le: "ia \<le> length x - 1" unfolding ia_def using lt by (intro plateau_end_le) simp
    show ?thesis
    proof (cases "x ! (i - 1) < x ! i")
      case False
      with lt "1.prems" have "p \<in> set (local_maxima_from x (i + 1))"
        by (simp add: local_maxima_from_flat)
      with "1.IH"(3) [OF lt False] show ?thesis by simp
    next
      case up: True
      show ?thesis
      proof (cases "x ! ia < x ! i")
        case False
        with lt up "1.prems" have "p \<in> set (local_maxima_from x (i + 1))"
          unfolding ia_def by (simp add: local_maxima_from_rise)
        with "1.IH"(2) [OF lt up ia_def False] show ?thesis by simp
      next
        case down: True
        have "local_maxima_from x i = ((i + (ia - 1)) div 2) # local_maxima_from x (ia + 1)"
          unfolding ia_def using lt up down [unfolded ia_def] by (rule local_maxima_from_peak)
        with "1.prems"
        have "p = (i + (ia - 1)) div 2 \<or> p \<in> set (local_maxima_from x (ia + 1))"
          by simp
        then show ?thesis
        proof
          assume "p = (i + (ia - 1)) div 2"
          with ia_ge ia_le lt show ?thesis by auto
        next
          assume "p \<in> set (local_maxima_from x (ia + 1))"
          with "1.IH"(1) [OF lt up ia_def down] ia_ge show ?thesis by simp
        qed
      qed
    qed
  qed
qed

lemma local_maxima_from_sorted: "sorted (local_maxima_from x i)"
proof (induction x i rule: local_maxima_from.induct)
  case (1 x i)
  show ?case
  proof (cases "i < length x - 1")
    case False
    then show ?thesis by (simp add: local_maxima_from_stop)
  next
    case lt: True
    define ia where "ia = plateau_end x i (i + 1)"
    have ia_ge: "i + 1 \<le> ia" unfolding ia_def by (rule plateau_end_ge)
    show ?thesis
    proof (cases "x ! (i - 1) < x ! i")
      case False
      with lt "1.IH"(3) [OF lt False] show ?thesis
        by (simp add: local_maxima_from_flat)
    next
      case up: True
      show ?thesis
      proof (cases "x ! ia < x ! i")
        case False
        with lt up "1.IH"(2) [OF lt up ia_def False] show ?thesis
          unfolding ia_def by (simp add: local_maxima_from_rise)
      next
        case down: True
        have eq: "local_maxima_from x i = ((i + (ia - 1)) div 2) # local_maxima_from x (ia + 1)"
          unfolding ia_def using lt up down [unfolded ia_def] by (rule local_maxima_from_peak)
        have "\<forall>p \<in> set (local_maxima_from x (ia + 1)). (i + (ia - 1)) div 2 \<le> p"
          using local_maxima_from_bounds [of _ x "ia + 1"] ia_ge by fastforce
        with "1.IH"(1) [OF lt up ia_def down] show ?thesis
          unfolding eq by simp
      qed
    qed
  qed
qed

lemma suppress_left_length [simp]: "length (suppress_left P d j k keep) = length keep"
  by (induction k arbitrary: keep) simp_all

lemma suppress_right_length [simp]: "length (suppress_right P d j k keep) = length keep"
  by (induction P d j k keep rule: suppress_right.induct) (subst suppress_right.simps, simp)

lemma suppress_left_mono: "suppress_left P d j k keep ! i \<Longrightarrow> i < length keep \<Longrightarrow> keep ! i"
proof (induction k arbitrary: keep)
  case 0
  then show ?case by simp
next
  case (Suc k)
  show ?case
  proof (cases "int (P ! j) - int (P ! k) < int d")
    case True
    with Suc.prems Suc.IH [of "keep[k := False]"] have "keep[k := False] ! i" by simp
    then show ?thesis using Suc.prems(2) by (cases "i = k") simp_all
  next
    case False
    with Suc.prems show ?thesis by simp
  qed
qed

lemma suppress_right_mono: "suppress_right P d j k keep ! i \<Longrightarrow> i < length keep \<Longrightarrow> keep ! i"
proof (induction P d j k keep rule: suppress_right.induct)
  case (1 P d j k keep)
  show ?case
  proof (cases "k < length P \<and> int (P ! k) - int (P ! j) < int d")
    case True
    with "1.prems" have "suppress_right P d j (Suc k) (keep[k := False]) ! i"
      by (subst (asm) suppress_right.simps) simp
    with "1.IH" [OF True] "1.prems"(2) have "keep[k := False] ! i" by simp
    then show ?thesis using "1.prems"(2) by (cases "i = k") simp_all
  next
    case False
    with "1.prems" show ?thesis by (subst (asm) suppress_right.simps) simp
  qed
qed

lemma suppress_left_untouched: "k \<le> i \<Longrightarrow> suppress_left P d j k keep ! i = keep ! i"
  by (induction k arbitrary: keep) simp_all

lemma suppress_right_untouched: "i < k \<Longrightarrow> suppress_right P d j k keep ! i = keep ! i"
  by (induction P d j k keep rule: suppress_right.induct) (subst suppress_right.simps, simp)

lemma suppress_left_clears:
  assumes "sorted P" and "k \<le> j" and "j < length P" and "length keep = length P"
    and "i < k" and "int (P ! j) - int (P ! i) < int d"
  shows "\<not> suppress_left P d j k keep ! i"
  using assms(2,4,5)
proof (induction k arbitrary: keep)
  case 0
  then show ?case by simp
next
  case (Suc k)
  have le: "P ! i \<le> P ! k" using assms(1) Suc.prems(1,3) assms(3) by (intro sorted_nth_mono) simp_all
  with assms(6) have close: "int (P ! j) - int (P ! k) < int d" by linarith
  show ?case
  proof (cases "i = k")
    case True
    have "\<not> (keep[k := False]) ! k" using Suc.prems assms(3) by simp
    then have "\<not> suppress_left P d j k (keep[k := False]) ! k"
      using suppress_left_mono [of P d j k "keep[k := False]" k] Suc.prems assms(3) by auto
    with close True show ?thesis by simp
  next
    case False
    with Suc.prems have "i < k" by simp
    with Suc.IH [of "keep[k := False]"] Suc.prems close show ?thesis by simp
  qed
qed

lemma suppress_right_clears:
  "sorted P \<Longrightarrow> length keep = length P \<Longrightarrow> j < k \<Longrightarrow> k \<le> i \<Longrightarrow> i < length P \<Longrightarrow>
   int (P ! i) - int (P ! j) < int d \<Longrightarrow> \<not> suppress_right P d j k keep ! i"
proof (induction P d j k keep rule: suppress_right.induct)
  case (1 P d j k keep)
  have "P ! k \<le> P ! i" using "1.prems"(1,4,5) by (intro sorted_nth_mono) simp_all
  with "1.prems"(6) have close: "k < length P \<and> int (P ! k) - int (P ! j) < int d"
    using "1.prems"(4,5) by linarith
  then have eq: "suppress_right P d j k keep = suppress_right P d j (Suc k) (keep[k := False])"
    by (subst suppress_right.simps) simp
  show ?case
  proof (cases "i = k")
    case True
    have "suppress_right P d j (Suc k) (keep[k := False]) ! k = (keep[k := False]) ! k"
      by (rule suppress_right_untouched) simp
    with True "1.prems"(2,5) show ?thesis unfolding eq by simp
  next
    case False
    with "1.prems" have "Suc k \<le> i" by simp
    with "1.IH" [OF close] "1.prems" show ?thesis unfolding eq by simp
  qed
qed

lemma suppress_around_length [simp]: "length (suppress_around P d keep j) = length keep"
  by (simp add: suppress_around_def)

lemma suppress_around_mono:
  "suppress_around P d keep j ! i \<Longrightarrow> i < length keep \<Longrightarrow> keep ! i"
  unfolding suppress_around_def
  using suppress_right_mono [of P d j "Suc j" "suppress_left P d j j keep" i]
    suppress_left_mono [of P d j j keep i]
  by (auto split: if_splits)

lemma suppress_around_clears:
  assumes "sorted P" and "length keep = length P" and "j < length P" and "keep ! j"
    and "i < length P" and "i \<noteq> j" and "\<bar>int (P ! i) - int (P ! j)\<bar> < int d"
  shows "\<not> suppress_around P d keep j ! i"
proof (cases "i < j")
  case True
  have "int (P ! j) - int (P ! i) < int d" using assms(7) by linarith
  from suppress_left_clears [OF assms(1) order_refl assms(3,2) True this]
  have "\<not> suppress_left P d j j keep ! i" .
  then have "\<not> suppress_right P d j (Suc j) (suppress_left P d j j keep) ! i"
    using suppress_right_mono [of P d j "Suc j" "suppress_left P d j j keep" i] assms(2,5) by auto
  with assms(4) show ?thesis by (simp add: suppress_around_def)
next
  case False
  with assms(6) have lt: "j < Suc j" and le: "Suc j \<le> i" by simp_all
  have close: "int (P ! i) - int (P ! j) < int d" using assms(7) by linarith
  have len: "length (suppress_left P d j j keep) = length P" using assms(2) by simp
  from suppress_right_clears [OF assms(1) len lt le assms(5) close] assms(4)
  show ?thesis by (simp add: suppress_around_def)
qed

lemma foldl_suppress_length [simp]:
  "length (foldl (suppress_around P d) keep js) = length keep"
  by (induction js arbitrary: keep) simp_all

lemma foldl_suppress_mono:
  "foldl (suppress_around P d) keep js ! i \<Longrightarrow> i < length keep \<Longrightarrow> keep ! i"
proof (induction js arbitrary: keep)
  case Nil
  then show ?case by simp
next
  case (Cons j js)
  from Cons.prems Cons.IH [of "suppress_around P d keep j"]
  have "suppress_around P d keep j ! i" by simp
  then show ?case using Cons.prems(2) by (rule suppress_around_mono)
qed

lemma foldl_suppress_clears:
  assumes "sorted P" and "length keep = length P" and "j \<in> set js" and "j < length P"
    and "foldl (suppress_around P d) keep js ! j"
    and "i < length P" and "i \<noteq> j" and "\<bar>int (P ! i) - int (P ! j)\<bar> < int d"
  shows "\<not> foldl (suppress_around P d) keep js ! i"
  using assms(2,3,5)
proof (induction js arbitrary: keep)
  case Nil
  then show ?case by simp
next
  case (Cons j' js)
  let ?k1 = "suppress_around P d keep j'"
  have len1: "length ?k1 = length P" using Cons.prems(1) by simp
  show ?case
  proof (cases "j = j'")
    case True
    from Cons.prems(3) have "?k1 ! j"
      using foldl_suppress_mono [of P d ?k1 js j] assms(4) len1 by simp
    then have "keep ! j" using suppress_around_mono [of P d keep j' j] assms(4) Cons.prems(1) by simp
    from suppress_around_clears [OF assms(1) Cons.prems(1) assms(4) this assms(6,7,8)]
    have "\<not> ?k1 ! i" using True by simp
    then show ?thesis
      using foldl_suppress_mono [of P d ?k1 js i] assms(6) len1 by auto
  next
    case False
    with Cons.prems(2) have "j \<in> set js" by simp
    from Cons.IH [OF len1 this] Cons.prems(3) show ?thesis by simp
  qed
qed

lemma select_by_peak_distance_spaced:
  assumes "sorted P" and "{0..<length P} \<subseteq> set (asort pr)"
  shows "sorted_wrt (\<lambda>p q. int d \<le> int q - int p)
           (map fst (filter snd (zip P (select_by_peak_distance asort P pr d))))"
proof -
  let ?K = "select_by_peak_distance asort P pr d"
  have len: "length ?K = length P" by (simp add: select_by_peak_distance_def)
  have pair: "int d \<le> int (P ! j) - int (P ! i)"
    if ij: "i < j" and j: "j < length P" and ki: "?K ! i" and kj: "?K ! j" for i j
  proof (rule ccontr)
    assume "\<not> int d \<le> int (P ! j) - int (P ! i)"
    moreover have "P ! i \<le> P ! j" using assms(1) ij j by (intro sorted_nth_mono) simp_all
    ultimately have close: "\<bar>int (P ! i) - int (P ! j)\<bar> < int d" by linarith
    have jin: "j \<in> set (rev (asort pr))" using assms(2) j by auto
    have l0: "length (replicate (length P) True) = length P" by simp
    have "\<not> ?K ! i"
      unfolding select_by_peak_distance_def
      using foldl_suppress_clears [OF assms(1) l0 jin j _ _ _ close] kj ij j
      unfolding select_by_peak_distance_def by auto
    with ki show False by simp
  qed
  have "sorted_wrt (\<lambda>a b. snd a \<and> snd b \<longrightarrow> int d \<le> int (fst b) - int (fst a)) (zip P ?K)"
    unfolding sorted_wrt_iff_nth_less using pair len by auto
  then have "sorted_wrt (\<lambda>a b. snd a \<and> snd b \<longrightarrow> int d \<le> int (fst b) - int (fst a))
               (filter snd (zip P ?K))"
    by (rule sorted_wrt_filter)
  then have "sorted_wrt (\<lambda>a b. int d \<le> int (fst b) - int (fst a)) (filter snd (zip P ?K))"
    by (rule sorted_wrt_mono_rel [rotated]) auto
  then show ?thesis by (simp add: sorted_wrt_map)
qed

lemma find_peaks_Inr:
  assumes "find_peaks asort x h dst = Inr peaks"
    and "\<forall>v. {0..<length v} \<subseteq> set (asort v)"
  shows "1 \<le> dst"
    and "sorted_wrt (\<lambda>p q. dst \<le> int q - int p) peaks"
    and "\<forall>p \<in> set peaks. p < length x \<and> h \<le> x ! p"
proof -
  let ?P = "filter (\<lambda>p. h \<le> x ! p) (local_maxima_1d x)"
  let ?K = "select_by_peak_distance asort ?P (map (\<lambda>p. x ! p) ?P) (nat dst)"
  from assms(1) show d1: "1 \<le> dst"
    by (simp add: find_peaks_def split: if_splits)
  with assms(1) have peaks: "peaks = map fst (filter snd (zip ?P ?K))"
    by (simp add: find_peaks_def Let_def)
  have srt: "sorted ?P"
    unfolding local_maxima_1d_def by (rule sorted_wrt_filter) (rule local_maxima_from_sorted)
  have sub: "{0..<length ?P} \<subseteq> set (asort (map (\<lambda>p. x ! p) ?P))"
    using assms(2) [rule_format, of "map (\<lambda>p. x ! p) ?P"] by simp
  from select_by_peak_distance_spaced
    [of ?P asort "map (\<lambda>p. x ! p) ?P" "nat dst", OF srt sub] d1
  show "sorted_wrt (\<lambda>p q. dst \<le> int q - int p) peaks"
    unfolding peaks by simp
  have "set peaks \<subseteq> set ?P"
    unfolding peaks by (auto dest: set_zip_leftD)
  then show "\<forall>p \<in> set peaks. p < length x \<and> h \<le> x ! p"
    using local_maxima_from_bounds [of _ x 1] unfolding local_maxima_1d_def by fastforce
qed

lemma peak_distance_nonneg: "0 \<le> Fs \<Longrightarrow> peak_distance Fs = Fs div 5"
proof -
  assume h: "0 \<le> Fs"
  have "(2 / 10) * real_of_int Fs = real_of_int Fs / real_of_int 5" by simp
  then have "\<lfloor>(2 / 10) * real_of_int Fs\<rfloor> = Fs div 5"
    using floor_divide_of_int_eq [of Fs 5, where ?'a = real] by simp
  with h show ?thesis by (simp add: peak_distance_def py_int_def)
qed

lemma argsort_stable_perm: "set (argsort_stable v) = {0..<length v}"
proof -
  have z: "map snd (zip v [0..<length v]) = [0..<length v]"
    by (rule map_snd_zip) simp
  have "set (argsort_stable v) = set (map snd (zip v [0..<length v]))"
    unfolding argsort_stable_def set_map set_sort ..
  then show ?thesis unfolding z by simp
qed

lemma detect_peaks_example:
  "detect_peaks argsort_stable 401 (0 # 1 # replicate 79 0 @ [2, 0]) = Inr (3 / 5, [1, 81])"
  by code_simp

text \<open>
  Claim C6, as amended. When peak detection returns, the threshold is \<open>0.3\<close> times the
  maximum of the smoothed envelope and every returned peak lies at or above it; any
  two consecutive peaks are at least \<open>int(0.2 * Fs)\<close> samples apart, the product
  truncated to an integer (\<open>Fs div 5\<close> for \<open>Fs \<ge> 0\<close>), which is what the code passes as
  \<^verbatim>\<open>distance\<close>. The only fact used about \<^verbatim>\<open>np.argsort\<close> is that it returns a permutation of
  the positions.
\<close>

theorem detect_peaks_spacing:
  assumes "detect_peaks asort Fs env = Inr (threshold, peaks)"
    and "\<forall>v. set (asort v) = {0..<length v}"
  shows "np_max env = Inr (threshold / (3 / 10))
    \<and> 1 \<le> peak_distance Fs
    \<and> (0 \<le> Fs \<longrightarrow> peak_distance Fs = Fs div 5)
    \<and> (\<forall>i. Suc i < length peaks \<longrightarrow> peak_distance Fs \<le> int (peaks ! Suc i) - int (peaks ! i))
    \<and> (\<forall>p \<in> set peaks. p < length env \<and> threshold \<le> env ! p)"
proof -
  from assms(1) obtain mx where mx: "np_max env = Inr mx" and th: "threshold = (3 / 10) * mx"
    and fp: "find_peaks asort env threshold (peak_distance Fs) = Inr peaks"
    by (auto simp: detect_peaks_def Let_def split: sum.splits)
  have perm: "\<forall>v. {0..<length v} \<subseteq> set (asort v)" using assms(2) by simp
  note F = find_peaks_Inr [OF fp perm]
  have sp: "\<forall>i. Suc i < length peaks \<longrightarrow> peak_distance Fs \<le> int (peaks ! Suc i) - int (peaks ! i)"
    using F(2) by (simp add: sorted_wrt_iff_nth_less)
  from mx th have "np_max env = Inr (threshold / (3 / 10))" by simp
  with F(1) sp F(3) peak_distance_nonneg [of Fs] show ?thesis by blast
qed

theorem detect_peaks_spacing_witness:
  "detect_peaks argsort_stable 401 (0 # 1 # replicate 79 0 @ [2, 0]) = Inr (3 / 5, [1, 81])
   \<and> peak_distance 401 = 80
   \<and> peak_distance 401 \<le> int ([1, 81] ! Suc 0) - int ([1, 81] ! 0)
   \<and> 3 / 5 \<le> (0 # 1 # replicate 79 0 @ [2, 0 :: real]) ! 81"
proof -
  note d = detect_peaks_example
  have p: "\<forall>v. set (argsort_stable v) = {0..<length v}"
    by (simp add: argsort_stable_perm)
  have fs: "(0::int) \<le> 401" by simp
  from detect_peaks_spacing [OF d p] fs
  have a: "peak_distance 401 = 401 div 5"
    and b: "\<forall>i. Suc i < length [1, 81 :: nat] \<longrightarrow>
              peak_distance 401 \<le> int ([1, 81] ! Suc i) - int ([1, 81] ! i)"
    and c: "\<forall>p \<in> set [1, 81 :: nat]. p < length (0 # 1 # replicate 79 0 @ [2, 0 :: real])
              \<and> 3 / 5 \<le> (0 # 1 # replicate 79 0 @ [2, 0 :: real]) ! p"
    by blast+
  from a have a': "peak_distance 401 = 80" by simp
  from b have b': "peak_distance 401 \<le> int ([1, 81] ! Suc 0) - int ([1, 81] ! 0)" by simp
  from c have c': "3 / 5 \<le> (0 # 1 # replicate 79 0 @ [2, 0 :: real]) ! 81" by simp
  from d a' b' c' show ?thesis by blast
qed

text \<open>
  The claim as written fails at \<open>Fs = 401\<close>: two peaks of different height, 80 samples
  apart, are both returned, and 80 is less than \<open>0.2 * 401 = 80.2\<close>.
\<close>

theorem detect_peaks_spacing_counterexample:
  "detect_peaks argsort_stable 401 (0 # 1 # replicate 79 0 @ [2, 0]) = Inr (3 / 5, [1, 81])
   \<and> real_of_int (int ([1, 81] ! Suc 0) - int ([1, 81] ! 0)) < (2 / 10) * real_of_int 401"
  using detect_peaks_example by simp

subsection \<open>Double rounding\<close>

lemma fl_scale_halve: "2 ^ 53 \<le> m \<Longrightarrow> fl_scale m e = fl_scale (m / 2) (e + 1)"
  by (subst fl_scale.simps) simp

lemma fl_scale_double: "0 < m \<Longrightarrow> m < 2 ^ 52 \<Longrightarrow> fl_scale m e = fl_scale (m * 2) (e - 1)"
  by (subst fl_scale.simps) simp

lemma fl_scale_done: "2 ^ 52 \<le> m \<Longrightarrow> m < 2 ^ 53 \<Longrightarrow> fl_scale m e = (m, e)"
  by (subst fl_scale.simps) simp

lemmas fl_eval = fl_def fl_scale_halve fl_scale_double fl_scale_done round_half_even_def Let_def

lemma fl_scale_props:
  "0 < m \<Longrightarrow> fl_scale m e = (m', e') \<Longrightarrow>
   2 ^ 52 \<le> m' \<and> m' < 2 ^ 53 \<and> m' * 2 powi e' = m * 2 powi e"
proof (induction m e rule: fl_scale.induct)
  case (1 m e)
  show ?case
  proof (cases "2 ^ 53 \<le> m")
    case True
    with "1.prems" have eq: "fl_scale (m / 2) (e + 1) = (m', e')"
      by (simp add: fl_scale_halve)
    have "0 < m / 2" using "1.prems"(1) by simp
    from "1.IH"(1) [OF True this eq]
    have "2 ^ 52 \<le> m' \<and> m' < 2 ^ 53 \<and> m' * 2 powi e' = m / 2 * 2 powi (e + 1)" .
    moreover have "(2::real) powi (e + 1) = 2 powi e * 2"
      by (simp add: power_int_add)
    then have "m / 2 * 2 powi (e + 1) = m * 2 powi e" by simp
    ultimately show ?thesis by (simp only:)
  next
    case nb: False
    show ?thesis
    proof (cases "m < 2 ^ 52")
      case True
      with "1.prems" have eq: "fl_scale (m * 2) (e - 1) = (m', e')"
        by (simp add: fl_scale_double)
      have c: "0 < m \<and> m < 2 ^ 52" using True "1.prems"(1) by simp
      have "0 < m * 2" using "1.prems"(1) by simp
      from "1.IH"(2) [OF nb c this eq]
      have "2 ^ 52 \<le> m' \<and> m' < 2 ^ 53 \<and> m' * 2 powi e' = m * 2 * 2 powi (e - 1)" .
      moreover have "(2::real) powi (e - 1) = 2 powi e / 2"
        by (simp add: power_int_diff)
      then have "m * 2 * 2 powi (e - 1) = m * 2 powi e" by simp
      ultimately show ?thesis by (simp only:)
    next
      case False
      with nb "1.prems" have "(m', e') = (m, e)"
        by (simp add: fl_scale_done)
      with nb False show ?thesis by simp
    qed
  qed
qed

lemma round_half_even_spec:
  "\<bar>x - real_of_int (round_half_even x)\<bar> \<le> 1 / 2
   \<and> (\<bar>x - real_of_int (round_half_even x)\<bar> = 1 / 2 \<longrightarrow> even (round_half_even x))"
proof -
  have "real_of_int \<lfloor>x\<rfloor> \<le> x" and "x < real_of_int \<lfloor>x\<rfloor> + 1" by linarith+
  then show ?thesis
    by (auto simp: round_half_even_def Let_def)
qed

lemma round_half_even_mono_int: "real_of_int k \<le> x \<Longrightarrow> k \<le> round_half_even x"
proof -
  assume "real_of_int k \<le> x"
  then have "k \<le> \<lfloor>x\<rfloor>" by (simp add: le_floor_iff)
  then show ?thesis by (auto simp: round_half_even_def Let_def)
qed

lemma fl_pos: "0 < x \<Longrightarrow> 0 < fl x"
proof -
  assume x: "0 < x"
  obtain m e where me: "fl_scale \<bar>x\<bar> 0 = (m, e)" by (cases "fl_scale \<bar>x\<bar> 0")
  from x have "0 < \<bar>x\<bar>" by simp
  from fl_scale_props [OF this me] have "real_of_int (2 ^ 52) \<le> m" by simp
  then have "2 ^ 52 \<le> round_half_even m" by (rule round_half_even_mono_int)
  then have "0 < real_of_int (round_half_even m)" by simp
  moreover have "(0::real) < 2 powi e" by (simp add: zero_less_power_int)
  ultimately show ?thesis using x me by (simp add: fl_def)
qed

lemma fl_error: "\<bar>fl x - x\<bar> \<le> \<bar>x\<bar> / 2 ^ 53"
proof (cases "x = 0")
  case True
  then show ?thesis by (simp add: fl_def)
next
  case False
  obtain m e where me: "fl_scale \<bar>x\<bar> 0 = (m, e)" by (cases "fl_scale \<bar>x\<bar> 0")
  from False have "0 < \<bar>x\<bar>" by simp
  from fl_scale_props [OF this me]
  have lo: "2 ^ 52 \<le> m" and sc: "m * 2 powi e = \<bar>x\<bar>" by simp_all
  have p: "(0::real) < 2 powi e" by (simp add: zero_less_power_int)
  have x: "x = sgn x * (m * 2 powi e)" unfolding sc by (simp add: sgn_mult_abs)
  have "fl x - x = sgn x * ((real_of_int (round_half_even m) - m) * 2 powi e)"
    using False me by (subst (2) x) (simp add: fl_def algebra_simps)
  then have "\<bar>fl x - x\<bar> = \<bar>real_of_int (round_half_even m) - m\<bar> * 2 powi e"
    using False p by (simp add: abs_mult abs_sgn_eq)
  also have "\<dots> \<le> 1 / 2 * 2 powi e"
    using round_half_even_spec [of m] p by (intro mult_right_mono) (simp_all add: abs_minus_commute)
  also have "\<dots> \<le> m / 2 ^ 53 * 2 powi e"
    using lo p by (intro mult_right_mono) simp_all
  also have "\<dots> = \<bar>x\<bar> / 2 ^ 53" using sc by simp
  finally show ?thesis .
qed

lemma py_round_spec:
  "\<exists>k::int. py_round x 1 = fl (of_int k / 10)
      \<and> \<bar>x * 10 - of_int k\<bar> \<le> 1 / 2
      \<and> (\<bar>x * 10 - of_int k\<bar> = 1 / 2 \<longrightarrow> even k)"
  using round_half_even_spec [of "x * 10"]
  by (intro exI [of _ "round_half_even (x * 10)"]) (simp add: py_round_def)

subsection \<open>Rate estimate and result record\<close>

lemma normalize_length: "normalize y0 = Inr y \<Longrightarrow> length y = length y0 \<and> y0 \<noteq> []"
  by (cases y0) (auto simp: normalize_def Let_def split: sum.splits if_splits)

lemma analyse_Inr:
  assumes "analyse L y0 Fs = Inr s"
  shows "normalize y0 = Inr (sig_y s)"
    and "duration_of (length (sig_y s)) Fs = Inr (sig_duration s)"
    and "bandpass L Fs (sig_y s) = Inr (sig_y_filt s)"
    and "smooth_envelope Fs (hilbert_abs L (sig_y_filt s)) = Inr (sig_env_smooth s)"
    and "detect_peaks (argsort L) Fs (sig_env_smooth s) = Inr (sig_threshold s, sig_peaks s)"
    and "sig_beats s = group_beats Fs (map int (sig_peaks s))"
    and "sig_bpm s = bpm_of (length (sig_beats s)) (sig_duration s)"
  using assms
  by (auto simp: analyse_def Let_def split: sum.splits prod.splits)

lemma bpm_of_error:
  assumes "0 < d"
  shows "\<bar>bpm_of b d - real b / (d / 60)\<bar> \<le> (real b / (d / 60)) / 2 ^ 51"
proof -
  define t where "t = d / 60"
  define t' where "t' = fl t"
  define q where "q = real b / t'"
  have t: "0 < t" using assms by (simp add: t_def)
  have t': "0 < t'" unfolding t'_def using t by (rule fl_pos)
  have et: "\<bar>t' - t\<bar> \<le> t / 2 ^ 53" unfolding t'_def using fl_error [of t] t by simp
  have half: "t / 2 \<le> t'"
  proof -
    have "t / 2 ^ 53 \<le> t / 2" using t by (simp add: field_simps)
    with et show ?thesis by linarith
  qed
  have q0: "0 \<le> q" unfolding q_def using t' by simp
  have eq: "\<bar>fl q - q\<bar> \<le> q / 2 ^ 53" using fl_error [of q] q0 by simp
  have "q - real b / t = real b * (t - t') / (t * t')"
    unfolding q_def using t t' by (simp add: field_simps)
  then have "\<bar>q - real b / t\<bar> = real b * \<bar>t - t'\<bar> / (t * t')"
    using t t' by (simp add: abs_mult)
  also have "\<dots> \<le> real b * (t / 2 ^ 53) / (t * t')"
    using et t t' by (intro divide_right_mono mult_left_mono) (simp_all add: abs_minus_commute)
  also have "\<dots> = q / 2 ^ 53" unfolding q_def using t t' by simp
  finally have e1: "\<bar>q - real b / t\<bar> \<le> q / 2 ^ 53" .
  have "q \<le> real b / (t / 2)"
    unfolding q_def using half t by (intro divide_left_mono) simp_all
  also have "real b / (t / 2) = 2 * (real b / t)" by simp
  finally have q2: "q \<le> 2 * (real b / t)" .
  have "\<bar>fl q - real b / t\<bar> \<le> q / 2 ^ 53 + q / 2 ^ 53" using eq e1 by linarith
  also have "\<dots> = q / 2 ^ 52" by simp
  also have "\<dots> \<le> 2 * (real b / t) / 2 ^ 52" using q2 by (intro divide_right_mono) simp_all
  also have "\<dots> = (real b / t) / 2 ^ 51" by simp
  finally have "\<bar>fl q - real b / t\<bar> \<le> (real b / t) / 2 ^ 51" .
  then show ?thesis using assms by (simp add: bpm_of_def q_def t'_def t_def)
qed

text \<open>
  The doubles of a run of 21 beats in 22400 samples at 1000 Hz. The exact rate is
  56.25; the double the code computes lies just above it, so the record gets the
  double nearest to 56.3.
\<close>

lemma bpm_rounding_example:
  "duration_of 22400 1000 = Inr (3152519739159347 / 140737488355328)
   \<and> bpm_of 21 (3152519739159347 / 140737488355328) = 7916483719987201 / 140737488355328
   \<and> (5625 / 100 :: real) < 7916483719987201 / 140737488355328
   \<and> py_round (7916483719987201 / 140737488355328) 1 = fl (563 / 10)"
  by (simp add: duration_of_def bpm_of_def py_round_def fl_eval)

text \<open>
  Claim C1. For a waveform \<open>y0\<close> analysed at a sample rate \<open>Fs > 0\<close>: the waveform has at
  least one sample; the duration is the double quotient \<open>len(y0) / Fs\<close> and is positive;
  the BPM before rounding is the number of grouped beats divided by \<open>duration / 60\<close>,
  both divisions in doubles, and differs from the exact quotient by at most a
  \<open>2^-51\<close> part of it; the rate estimate for a duration of 0 is 0. The \<open>bpm\<close> field of a
  returned record is that BPM rounded to one decimal place: the double nearest to
  \<open>k / 10\<close>, where \<open>k\<close> is the integer nearest to ten times the BPM, the even one on a
  tie; the record carries the same grouped beat count.
\<close>

theorem bpm_consistency:
  assumes "analyse L y0 Fs = Inr s" and "0 < Fs"
  shows "y0 \<noteq> []
    \<and> sig_duration s = fl (real (length y0) / real_of_int Fs)
    \<and> 0 < sig_duration s
    \<and> sig_bpm s = fl (real (length (sig_beats s)) / fl (sig_duration s / 60))
    \<and> \<bar>sig_bpm s - real (length (sig_beats s)) / (sig_duration s / 60)\<bar>
        \<le> (real (length (sig_beats s)) / (sig_duration s / 60)) / 2 ^ 51
    \<and> bpm_of (length (sig_beats s)) 0 = 0
    \<and> (\<forall>m. process_heartbeat L y0 Fs = Inr m \<longrightarrow>
          meta_beats_grouped m = length (sig_beats s)
          \<and> (\<exists>k::int. meta_bpm m = fl (of_int k / 10)
                \<and> \<bar>sig_bpm s * 10 - of_int k\<bar> \<le> 1 / 2
                \<and> (\<bar>sig_bpm s * 10 - of_int k\<bar> = 1 / 2 \<longrightarrow> even k)))"
proof -
  note A = analyse_Inr [OF assms(1)]
  from normalize_length [OF A(1)] have len: "length (sig_y s) = length y0" and ne: "y0 \<noteq> []"
    by simp_all
  from A(2) assms(2) have dur: "sig_duration s = fl (real (length y0) / real_of_int Fs)"
    by (simp add: duration_of_def len)
  have "0 < real (length y0) / real_of_int Fs" using ne assms(2) by simp
  then have pos: "0 < sig_duration s" unfolding dur by (rule fl_pos)
  with A(7) have bpm: "sig_bpm s = fl (real (length (sig_beats s)) / fl (sig_duration s / 60))"
    by (simp add: bpm_of_def)
  have err: "\<bar>sig_bpm s - real (length (sig_beats s)) / (sig_duration s / 60)\<bar>
        \<le> (real (length (sig_beats s)) / (sig_duration s / 60)) / 2 ^ 51"
    unfolding A(7) using pos by (rule bpm_of_error)
  have zero: "bpm_of (length (sig_beats s)) 0 = 0" by (simp add: bpm_of_def)
  have m: "meta_beats_grouped m = length (sig_beats s)
          \<and> (\<exists>k::int. meta_bpm m = fl (of_int k / 10)
                \<and> \<bar>sig_bpm s * 10 - of_int k\<bar> \<le> 1 / 2
                \<and> (\<bar>sig_bpm s * 10 - of_int k\<bar> = 1 / 2 \<longrightarrow> even k))"
    if "process_heartbeat L y0 Fs = Inr m" for m
  proof -
    from that assms(1) have "m = assemble_meta Fs s"
      by (simp add: process_heartbeat_def split: if_splits)
    then show ?thesis using py_round_spec [of "sig_bpm s"] by (simp add: assemble_meta_def)
  qed
  from ne dur pos bpm err zero m show ?thesis by blast
qed

theorem bpm_consistency_witness:
  "(0::int) < 401
   \<and> analyse (stub_dsp [1] [1]) (replicate 10 0 @ [1, 2, 1] @ replicate 10 0) 401 =
       Inr \<lparr>sig_y = replicate 10 0 @ [1 / 2, 1, 1 / 2] @ replicate 10 0,
            sig_duration = 8265958418315923 / 144115188075855872,
            sig_y_filt = replicate 10 0 @ [1 / 2, 1, 1 / 2] @ replicate 10 0,
            sig_env_smooth = [0, 1 / 40, 3 / 40] @ replicate 18 (1 / 10) @ [3 / 40, 1 / 40],
            sig_threshold = 3 / 100, sig_peaks = [11], sig_beats = [11],
            sig_bpm = 1150184772360459 / 1099511627776\<rparr>
   \<and> (8265958418315923 / 144115188075855872 :: real) = fl (real 23 / real_of_int 401)
   \<and> (1150184772360459 / 1099511627776 :: real)
       = fl (real 1 / fl (8265958418315923 / 144115188075855872 / 60))
   \<and> (\<exists>m. process_heartbeat (stub_dsp [1] [1]) (replicate 10 0 @ [1, 2, 1] @ replicate 10 0) 401
             = Inr m
          \<and> meta_beats_grouped m = 1 \<and> meta_bpm m = fl (10461 / 10))"
proof -
  let ?L = "stub_dsp [1] [1]"
  let ?y = "replicate 10 0 @ [1, 2, 1] @ replicate 10 (0::real)"
  let ?yn = "replicate 10 0 @ [1 / 2, 1, 1 / 2] @ replicate 10 (0::real)"
  let ?env = "[0, 1 / 40, 3 / 40] @ replicate 18 (1 / 10) @ [3 / 40, 1 / 40 :: real]"
  let ?d = "8265958418315923 / 144115188075855872 :: real"
  let ?b = "1150184772360459 / 1099511627776 :: real"
  let ?S = "\<lparr>sig_y = ?yn, sig_duration = ?d, sig_y_filt = ?yn, sig_env_smooth = ?env,
            sig_threshold = 3 / 100, sig_peaks = [11], sig_beats = [11 :: int],
            sig_bpm = ?b\<rparr>"
  have n: "normalize ?y = Inr ?yn" by code_simp
  have l: "length ?yn = 23" by simp
  have du: "duration_of 23 401 = Inr ?d" by (simp add: duration_of_def fl_eval)
  have bp: "bandpass ?L 401 ?yn = Inr ?yn" by code_simp
  have se: "smooth_envelope 401 (hilbert_abs ?L ?yn) = Inr ?env" by code_simp
  have dp: "detect_peaks (argsort ?L) 401 ?env = Inr (3 / 100, [11])" by code_simp
  have gb: "group_beats 401 (map int [11]) = [11]" by (simp add: group_beats_def group_step_def)
  have bo: "bpm_of (length [11 :: int]) ?d = ?b" by (simp add: bpm_of_def fl_eval)
  have a: "analyse ?L ?y 401 = Inr ?S"
    unfolding analyse_def n sum.case l du bp se dp prod.case Let_def gb bo ..
  have fs: "(0::int) < 401" by simp
  have pl: "plot_ok ?S" by (simp add: plot_ok_def)
  have ph: "process_heartbeat ?L ?y 401 = Inr (assemble_meta 401 ?S)"
    unfolding process_heartbeat_def a sum.case using pl by simp
  have mb: "meta_bpm (assemble_meta 401 ?S) = fl (10461 / 10)"
    by (simp add: assemble_meta_def py_round_def round_half_even_def Let_def)
  from bpm_consistency [OF a fs]
  have d: "sig_duration ?S = fl (real (length ?y) / real_of_int 401)"
    and b: "sig_bpm ?S = fl (real (length (sig_beats ?S)) / fl (sig_duration ?S / 60))"
    and m: "\<forall>m. process_heartbeat ?L ?y 401 = Inr m \<longrightarrow>
          meta_beats_grouped m = length (sig_beats ?S)
          \<and> (\<exists>k::int. meta_bpm m = fl (of_int k / 10)
                \<and> \<bar>sig_bpm ?S * 10 - of_int k\<bar> \<le> 1 / 2
                \<and> (\<bar>sig_bpm ?S * 10 - of_int k\<bar> = 1 / 2 \<longrightarrow> even k))"
    by blast+
  from d have d': "?d = fl (real 23 / real_of_int 401)" by simp
  from b have b': "?b = fl (real 1 / fl (?d / 60))" by simp
  from m ph have "meta_beats_grouped (assemble_meta 401 ?S) = length (sig_beats ?S)" by blast
  then have m1: "meta_beats_grouped (assemble_meta 401 ?S) = 1" by simp
  from ph m1 mb have "\<exists>m. process_heartbeat ?L ?y 401 = Inr m
          \<and> meta_beats_grouped m = 1 \<and> meta_bpm m = fl (10461 / 10)"
    by blast
  with fs a d' b' show ?thesis by blast
qed

subsection \<open>Band-pass filtering\<close>

lemma lfilter_run_length [simp]: "length (lfilter_run b a xh yh x) = length x"
  by (induction x arbitrary: xh yh) (simp_all add: Let_def)

subsection \<open>Length of the smoothed envelope\<close>

lemma conv_full_length [simp]: "length (conv_full a v) = length a + length v - 1"
  by (simp add: conv_full_def)

lemma np_convolve_same_length:
  assumes "a \<noteq> []" and "v \<noteq> []"
  shows "\<exists>z. np_convolve_same a v = Inr z \<and> length z = max (length a) (length v)"
proof -
  have "0 < length a" "0 < length v" using assms by simp_all
  moreover have "(length v - 1) div 2 \<le> length v - 1" "(length a - 1) div 2 \<le> length a - 1"
    by simp_all
  ultimately have "min (length v + length a - Suc ((length a - Suc 0) div 2)) (length v) = length v"
    and "min (length a + length v - Suc ((length v - Suc 0) div 2)) (length a) = length a"
    by linarith+
  then show ?thesis
    using assms by (auto simp: np_convolve_same_def Let_def)
qed

lemma window_len_pos: "0 < nat (window_len Fs)"
  by (simp add: window_len_def Let_def)

lemma smooth_envelope_Inr:
  assumes "smooth_envelope Fs env = Inr z"
  shows "length z = max (length env) (nat (window_len Fs))"
proof -
  let ?k = "replicate (nat (window_len Fs)) (1 / real_of_int (window_len Fs))"
  have k: "?k \<noteq> []" using window_len_pos [of Fs] by simp
  have e: "env \<noteq> []"
  proof
    assume "env = []"
    with k have "np_convolve_same env ?k = Inl ValueError"
      by (simp add: np_convolve_same_def)
    with assms show False by (simp add: smooth_envelope_def Let_def)
  qed
  from np_convolve_same_length [OF e k] assms show ?thesis
    by (auto simp: smooth_envelope_def Let_def)
qed

text \<open>
  Claim C9 does not hold for the smoothed envelope. \<^verbatim>\<open>np.convolve(..., mode="same")\<close>
  returns as many samples as the longer of its two arguments, so the smoothed envelope
  has \<open>max n window_len\<close> samples for an envelope of \<open>n \<ge> 1\<close> samples: more than \<open>n\<close> when
  the waveform is shorter than the window, 50 for 10 samples at 1000 Hz.
\<close>

theorem smooth_envelope_length:
  assumes "env \<noteq> []"
  shows "\<exists>z. smooth_envelope Fs env = Inr z \<and> length z = max (length env) (nat (window_len Fs))"
proof -
  have "replicate (nat (window_len Fs)) (1 / real_of_int (window_len Fs)) \<noteq> []"
    using window_len_pos [of Fs] by simp
  from np_convolve_same_length [OF assms this] show ?thesis
    by (simp add: smooth_envelope_def Let_def)
qed

theorem smooth_envelope_length_witness:
  "replicate 10 (1::real) \<noteq> []
   \<and> (\<exists>z. smooth_envelope 1000 (replicate 10 1) = Inr z \<and> length z = 50)"
proof -
  have ne: "replicate 10 (1::real) \<noteq> []" by simp
  have w: "nat (window_len 1000) = 50" by (simp add: window_len_def py_int_def Let_def)
  from smooth_envelope_length [OF ne, of 1000] ne show ?thesis unfolding w by simp
qed

text \<open>
  The filtered waveform keeps the length of its input: on the fallback path by the
  forward recurrence, on the zero-phase path when \<^verbatim>\<open>filtfilt\<close> keeps it. A waveform
  shorter than the window therefore never yields a result record: when every stage
  returns, the smoothed envelope is longer than the time axis and plotting raises.
\<close>

lemma bandpass_length:
  assumes "bandpass L Fs y = Inr z"
    and "\<forall>b a v w. filtfilt L b a v = Inr w \<longrightarrow> length w = length v"
  shows "length z = length y"
  using assms
  by (auto simp: bandpass_def lfilter_def split: sum.splits prod.splits if_splits)

lemma process_heartbeat_short_input:
  assumes "length y0 < nat (window_len Fs)"
    and "\<forall>b a v w. filtfilt L b a v = Inr w \<longrightarrow> length w = length v"
    and "\<forall>v. length (hilbert_abs L v) = length v"
  shows "\<exists>e. process_heartbeat L y0 Fs = Inl e"
proof (cases "analyse L y0 Fs")
  case (Inl e)
  then show ?thesis by (simp add: process_heartbeat_def)
next
  case (Inr s)
  note A = analyse_Inr [OF Inr]
  from normalize_length [OF A(1)] have len: "length (sig_y s) = length y0" and ne: "y0 \<noteq> []"
    by simp_all
  from bandpass_length [OF A(3) assms(2)] have lf: "length (sig_y_filt s) = length y0"
    using len by simp
  with assms(3) have lenv: "length (hilbert_abs L (sig_y_filt s)) = length y0"
    by simp
  from smooth_envelope_Inr [OF A(4)]
  have "length (sig_env_smooth s) = max (length y0) (nat (window_len Fs))"
    using lenv by simp
  with assms(1) have "\<not> plot_ok s" by (simp add: plot_ok_def len)
  with Inr show ?thesis by (simp add: process_heartbeat_def)
qed

subsection \<open>The fallback run\<close>

lemma window_len_ge_20: "400 < Fs \<Longrightarrow> 20 \<le> nat (window_len Fs)"
proof -
  assume h: "400 < Fs"
  then have "0 \<le> Fs" by simp
  from py_int_nonneg [OF this] have "window_len Fs = max 1 (Fs div 20)"
    by (auto simp: window_len_def Let_def)
  moreover have "20 \<le> Fs div 20" using h by linarith
  ultimately show ?thesis by simp
qed

text \<open>
  Claim C4 does not hold for the pipeline. The filter stage does fall back: when
  \<^verbatim>\<open>filtfilt\<close> raises, whatever the exception, the stage returns what the single forward
  pass \<^verbatim>\<open>lfilter\<close> returns for the same coefficients \<open>(b, a)\<close>, the forward recurrence run
  over the input, and the stage is a function of its input. But \<^verbatim>\<open>filtfilt\<close> raises on a
  waveform of at most 15 samples (three times the five coefficients of the band-pass
  design) and \<^verbatim>\<open>butter\<close> needs a sample rate above 400 Hz, so the smoothing window has at
  least 20 samples and is longer than the waveform. The smoothed envelope is then
  longer than the time axis, plotting raises, and the caller gets an error and no
  record.
\<close>

theorem fallback_run_raises:
  assumes "normalize y0 = Inr y" and "butter L Fs = Inr (b, a)" and "filtfilt L b a y = Inl e"
    and "a \<noteq> []" and "hd a \<noteq> 0"
    and "400 < Fs" and "length y0 \<le> 15"
    and "\<forall>v. length (hilbert_abs L v) = length v"
  shows "bandpass L Fs y = lfilter b a y
    \<and> bandpass L Fs y = Inr (lfilter_run b a [] [] y)
    \<and> length (lfilter_run b a [] [] y) = length y0
    \<and> (\<exists>e'. process_heartbeat L y0 Fs = Inl e')"
proof -
  from normalize_length [OF assms(1)] have len: "length y = length y0" by simp
  have st: "bandpass L Fs y = lfilter b a y"
    and run: "bandpass L Fs y = Inr (lfilter_run b a [] [] y)"
    using assms(2-5) by (simp_all add: bandpass_def lfilter_def)
  have raises: "\<exists>e'. process_heartbeat L y0 Fs = Inl e'"
  proof (cases "analyse L y0 Fs")
    case (Inl e')
    then show ?thesis by (simp add: process_heartbeat_def)
  next
    case (Inr s)
    note A = analyse_Inr [OF Inr]
    from A(1) assms(1) have y: "sig_y s = y" by simp
    from A(3) run have "sig_y_filt s = lfilter_run b a [] [] y" unfolding y by simp
    then have "length (sig_y_filt s) = length y0" using len by simp
    with assms(8) have "length (hilbert_abs L (sig_y_filt s)) = length y0" by simp
    with smooth_envelope_Inr [OF A(4)]
    have "length (sig_env_smooth s) = max (length y0) (nat (window_len Fs))" by simp
    moreover have "length y0 < nat (window_len Fs)"
      using window_len_ge_20 [OF assms(6)] assms(7) by linarith
    ultimately have "\<not> plot_ok s" by (simp add: plot_ok_def y len)
    with Inr show ?thesis by (simp add: process_heartbeat_def)
  qed
  from st run len raises show ?thesis by simp
qed

theorem fallback_run_raises_witness:
  "normalize [2, -2, 1, 0, 0, 2, 0, 0, 0, -1] = Inr [1, -1, 1 / 2, 0, 0, 1, 0, 0, 0, -1 / 2]
   \<and> butter (stub_dsp [1 / 4, 0, -1 / 2, 0, 1 / 4] [1, -1, 1 / 2, 0, 0]) 1000
       = Inr ([1 / 4, 0, -1 / 2, 0, 1 / 4], [1, -1, 1 / 2, 0, 0])
   \<and> filtfilt (stub_dsp [1 / 4, 0, -1 / 2, 0, 1 / 4] [1, -1, 1 / 2, 0, 0])
         [1 / 4, 0, -1 / 2, 0, 1 / 4] [1, -1, 1 / 2, 0, 0]
         [1, -1, 1 / 2, 0, 0, 1, 0, 0, 0, -1 / 2] = Inl ValueError
   \<and> bandpass (stub_dsp [1 / 4, 0, -1 / 2, 0, 1 / 4] [1, -1, 1 / 2, 0, 0]) 1000
         [1, -1, 1 / 2, 0, 0, 1, 0, 0, 0, -1 / 2]
       = Inr [1 / 4, 0, -1 / 2, 0, 1 / 4, 1 / 4, 1 / 4, -3 / 8, -1 / 2, -3 / 16]
   \<and> (\<exists>e'. process_heartbeat (stub_dsp [1 / 4, 0, -1 / 2, 0, 1 / 4] [1, -1, 1 / 2, 0, 0])
               [2, -2, 1, 0, 0, 2, 0, 0, 0, -1] 1000 = Inl e')"
proof -
  let ?b = "[1 / 4, 0, -1 / 2, 0, 1 / 4 :: real]"
  let ?a = "[1, -1, 1 / 2, 0, 0 :: real]"
  let ?L = "stub_dsp ?b ?a"
  let ?raw = "[2, -2, 1, 0, 0, 2, 0, 0, 0, -1 :: real]"
  let ?nrm = "[1, -1, 1 / 2, 0, 0, 1, 0, 0, 0, -1 / 2 :: real]"
  have n: "normalize ?raw = Inr ?nrm" by (simp add: normalize_def)
  have bu: "butter ?L 1000 = Inr (?b, ?a)" by (simp add: stub_dsp_def)
  have ff: "filtfilt ?L ?b ?a ?nrm = Inl ValueError" by (simp add: stub_dsp_def)
  have a1: "?a \<noteq> []" and a2: "hd ?a \<noteq> 0" by simp_all
  have fs: "(400::int) < 1000" by simp
  have ln: "length ?raw \<le> 15" by simp
  have hl: "\<forall>v. length (hilbert_abs ?L v) = length v" by (simp add: stub_dsp_def)
  from fallback_run_raises [OF n bu ff a1 a2 fs ln hl]
  have run: "bandpass ?L 1000 ?nrm = Inr (lfilter_run ?b ?a [] [] ?nrm)"
    and r: "\<exists>e'. process_heartbeat ?L ?raw 1000 = Inl e'"
    by blast+
  have "lfilter_run ?b ?a [] [] ?nrm
        = [1 / 4, 0, -1 / 2, 0, 1 / 4, 1 / 4, 1 / 4, -3 / 8, -1 / 2, -3 / 16]"
    by (simp add: Let_def)
  with run have bp: "bandpass ?L 1000 ?nrm
        = Inr [1 / 4, 0, -1 / 2, 0, 1 / 4, 1 / 4, 1 / 4, -3 / 8, -1 / 2, -3 / 16]"
    by simp
  from n bu ff bp r show ?thesis by blast
qed

end
